theory Spec2Isabelle
  imports Main "HOL-Library.Multiset" "HOL-Library.Sublist"
begin

section \<open>The Huffman codec of huffman.py\<close>

text \<open>
  The class \<^verbatim>\<open>HuffmanCoding\<close> of \<^verbatim>\<open>src/huffman.py\<close> is embedded function by
  function. A symbol is whatever the reader hands over: a character of the text or the
  tuple of one pixel row. The two branches on \<^verbatim>\<open>file_type\<close> in
  \<^verbatim>\<open>_build_frequency_dict\<close> and \<^verbatim>\<open>_get_encoded_data\<close> differ only by the
  conversion \<^verbatim>\<open>tuple(pixel)\<close>, so the symbol type is a type variable and every
  result below holds for characters and for pixel triples alike.

  Bit strings are Python \<^verbatim>\<open>str\<close> values over the characters 0 and 1 and are kept
  as \<^typ>\<open>string\<close>. Exceptions are values of the type \<open>error\<close>.
\<close>

datatype error = IndexError | KeyError | ValueError

text \<open>The name of the Python class of each exception.\<close>

fun exception_name :: "error \<Rightarrow> string" where
  "exception_name IndexError = ''IndexError''"
| "exception_name KeyError = ''KeyError''"
| "exception_name ValueError = ''ValueError''"

subsection \<open>Frequency table\<close>

text \<open>
  \<^verbatim>\<open>freq = defaultdict(int); for char in data: freq[char] += 1\<close>.
  A Python dict keeps its keys in insertion order and \<^verbatim>\<open>_build_heap\<close> iterates
  over it, so the table is an association list in insertion order: a key that is
  missing is appended with count 1, a key that is present has its count increased
  in place.
\<close>

fun incr :: "'a \<Rightarrow> ('a \<times> nat) list \<Rightarrow> ('a \<times> nat) list" where
  "incr k [] = [(k, 1)]"
| "incr k ((k', c) # rest) = (if k' = k then (k', c + 1) # rest else (k', c) # incr k rest)"

definition build_frequency_dict :: "'a list \<Rightarrow> ('a \<times> nat) list" where
  "build_frequency_dict data = foldl (\<lambda>freq char. incr char freq) [] data"

subsection \<open>Nodes and the heap\<close>

text \<open>
  \<^verbatim>\<open>class Node\<close> has the fields symbol, freq, left and right; symbol is
  \<^verbatim>\<open>None\<close> in a merged node, left and right are \<^verbatim>\<open>None\<close> in a leaf.
  \<^verbatim>\<open>__lt__\<close> compares the frequencies only.
\<close>

datatype 'a node =
  Node (symbol: "'a option") (freq: nat) (left: "'a node option") (right: "'a node option")

definition node_lt :: "'a node \<Rightarrow> 'a node \<Rightarrow> bool" where
  "node_lt a b = (freq a < freq b)"

text \<open>
  \<^verbatim>\<open>heapq\<close> is Python's standard library; the functions below follow its
  reference implementation \<^verbatim>\<open>heapq.py\<close> (\<^verbatim>\<open>_siftdown\<close>, \<^verbatim>\<open>_siftup\<close>,
  \<^verbatim>\<open>heappush\<close>, \<^verbatim>\<open>heappop\<close>) on a list. Every index these functions read
  is below the length of the list whenever \<open>pos\<close> is, which is the case in all calls
  made here.
\<close>

function siftdown_loop :: "'a node list \<Rightarrow> nat \<Rightarrow> nat \<Rightarrow> 'a node \<Rightarrow> 'a node list" where
  "siftdown_loop heap startpos pos newitem =
     (if pos > startpos then
        (let parentpos = (pos - 1) div 2; parent = heap ! parentpos in
         if node_lt newitem parent
         then siftdown_loop (heap[pos := parent]) startpos parentpos newitem
         else heap[pos := newitem])
      else heap[pos := newitem])"
  by pat_completeness auto
termination
  by (relation "measure (\<lambda>(heap, startpos, pos, newitem). pos)") auto

declare siftdown_loop.simps [simp del]

definition siftdown :: "'a node list \<Rightarrow> nat \<Rightarrow> nat \<Rightarrow> 'a node list" where
  "siftdown heap startpos pos = siftdown_loop heap startpos pos (heap ! pos)"

function siftup_loop :: "'a node list \<Rightarrow> nat \<Rightarrow> 'a node list \<times> nat" where
  "siftup_loop heap pos =
     (let endpos = length heap; childpos = 2 * pos + 1 in
      if childpos < endpos then
        (let rightpos = childpos + 1;
             childpos' = (if rightpos < endpos \<and> \<not> node_lt (heap ! childpos) (heap ! rightpos)
                          then rightpos else childpos)
         in siftup_loop (heap[pos := heap ! childpos']) childpos')
      else (heap, pos))"
  by pat_completeness auto
termination
  by (relation "measure (\<lambda>(heap, pos). length heap - pos)") auto

declare siftup_loop.simps [simp del]

definition siftup :: "'a node list \<Rightarrow> nat \<Rightarrow> 'a node list" where
  "siftup heap pos =
     (let newitem = heap ! pos; (heap', pos') = siftup_loop heap pos
      in siftdown (heap'[pos' := newitem]) pos pos')"

definition heappush :: "'a node list \<Rightarrow> 'a node \<Rightarrow> 'a node list" where
  "heappush heap item = siftdown (heap @ [item]) 0 (length heap)"

definition heappop :: "'a node list \<Rightarrow> error + ('a node \<times> 'a node list)" where
  "heappop heap =
     (if heap = [] then Inl IndexError
      else (let lastelt = last heap; heap' = butlast heap in
            if heap' \<noteq> [] then Inr (heap' ! 0, siftup (heap'[0 := lastelt]) 0)
            else Inr (lastelt, heap')))"

subsection \<open>Building the tree\<close>

definition build_heap :: "'a node list \<Rightarrow> ('a \<times> nat) list \<Rightarrow> 'a node list" where
  "build_heap heap freq_dict =
     foldl (\<lambda>h (s, f). heappush h (Node (Some s) f None None)) heap freq_dict"

lemma length_siftdown_loop [simp]:
  "length (siftdown_loop heap startpos pos newitem) = length heap"
  by (induction heap startpos pos newitem rule: siftdown_loop.induct)
     (subst siftdown_loop.simps, simp add: Let_def)

lemma length_siftdown [simp]: "length (siftdown heap startpos pos) = length heap"
  by (simp add: siftdown_def)

lemma length_siftup_loop [simp]: "length (fst (siftup_loop heap pos)) = length heap"
  by (induction heap pos rule: siftup_loop.induct)
     (subst siftup_loop.simps, simp add: Let_def)

lemma length_siftup [simp]: "length (siftup heap pos) = length heap"
  by (simp add: siftup_def Let_def split: prod.splits)
     (metis fst_conv length_siftup_loop)

lemma length_heappush [simp]: "length (heappush heap item) = Suc (length heap)"
  by (simp add: heappush_def)

lemma length_heappop: "heappop heap = Inr (x, heap') \<Longrightarrow> Suc (length heap') = length heap"
  by (cases heap rule: rev_cases) (auto simp: heappop_def Let_def split: if_splits)

function merge_nodes :: "'a node list \<Rightarrow> error + 'a node list" where
  "merge_nodes heap =
     (if length heap > 1 then
        (case heappop heap of
           Inl e \<Rightarrow> Inl e
         | Inr (node1, heap1) \<Rightarrow>
             (case heappop heap1 of
                Inl e \<Rightarrow> Inl e
              | Inr (node2, heap2) \<Rightarrow>
                  merge_nodes (heappush heap2
                    (Node None (freq node1 + freq node2) (Some node1) (Some node2)))))
      else Inr heap)"
  by pat_completeness auto
termination
proof (relation "measure length", goal_cases)
  case 1
  show ?case by simp
next
  case (2 heap x2 node1 heap1 y2 node2 heap2)
  then have "Suc (length heap1) = length heap" "Suc (length heap2) = length heap1"
    by (auto dest: length_heappop)
  then show ?case by simp
qed

declare merge_nodes.simps [simp del]

subsection \<open>The code tables\<close>

text \<open>
  \<^verbatim>\<open>self.codes\<close> and \<^verbatim>\<open>self.reverse_mapping\<close> are dicts that
  \<^verbatim>\<open>_build_codes_helper\<close> fills while it walks the tree; they are passed in and
  returned.
\<close>

record 'a tables =
  codes :: "'a \<rightharpoonup> string"
  reverse_mapping :: "string \<rightharpoonup> 'a"

definition empty_tables :: "'a tables" where
  "empty_tables = \<lparr>codes = Map.empty, reverse_mapping = Map.empty\<rparr>"

fun build_codes_helper :: "'a node option \<Rightarrow> string \<Rightarrow> 'a tables \<Rightarrow> 'a tables" where
  "build_codes_helper None code t = t"
| "build_codes_helper (Some (Node sy f l r)) code t =
     (let t1 = (case sy of
                  Some s \<Rightarrow> t\<lparr>codes := (codes t)(s \<mapsto> code),
                              reverse_mapping := (reverse_mapping t)(code \<mapsto> s)\<rparr>
                | None \<Rightarrow> t);
          t2 = build_codes_helper l (code @ ''0'') t1
      in build_codes_helper r (code @ ''1'') t2)"

definition build_codes :: "'a node list \<Rightarrow> 'a tables \<Rightarrow> error + ('a node list \<times> 'a tables)" where
  "build_codes heap t =
     (case heappop heap of
        Inl e \<Rightarrow> Inl e
      | Inr (root, heap') \<Rightarrow> Inr (heap', build_codes_helper (Some root) [] t))"

subsection \<open>Encoding, padding and bytes\<close>

fun get_encoded_data :: "('a \<rightharpoonup> string) \<Rightarrow> 'a list \<Rightarrow> error + string" where
  "get_encoded_data cs [] = Inr []"
| "get_encoded_data cs (char # data) =
     (case cs char of
        None \<Rightarrow> Inl KeyError
      | Some code \<Rightarrow>
          (case get_encoded_data cs data of
             Inl e \<Rightarrow> Inl e
           | Inr rest \<Rightarrow> Inr (code @ rest)))"

text \<open>
  \<^verbatim>\<open>"{0:08b}".format(n)\<close>: the binary digits of \<open>n\<close>, filled with zeros on the
  left up to a width of 8 (a wider number is not cut).
\<close>

definition bit_char :: "nat \<Rightarrow> char" where
  "bit_char d = (if d = 0 then CHR ''0'' else CHR ''1'')"

fun bin_digits :: "nat \<Rightarrow> string" where
  "bin_digits n = (if n < 2 then [bit_char n] else bin_digits (n div 2) @ [bit_char (n mod 2)])"

declare bin_digits.simps [simp del]

definition format_08b :: "nat \<Rightarrow> string" where
  "format_08b n = replicate (8 - length (bin_digits n)) CHR ''0'' @ bin_digits n"

definition pad_encoded_data :: "string \<Rightarrow> string \<times> nat" where
  "pad_encoded_data encoded_data =
     (let extra_padding = 8 - length encoded_data mod 8;
          padded_info = format_08b extra_padding
      in (padded_info @ encoded_data @ replicate extra_padding CHR ''0'', extra_padding))"

text \<open>
  \<^verbatim>\<open>int(s, 2)\<close> on a string of the characters 0 and 1: the number it denotes, and
  \<^verbatim>\<open>ValueError\<close> on the empty string. The codec builds its bit strings from codes,
  \<^verbatim>\<open>format\<close> and \<^verbatim>\<open>"0" * n\<close> only, so no other character reaches it; a
  string with another character is given \<^verbatim>\<open>ValueError\<close> here (Python also accepts
  a sign, a prefix, blanks and underscores).
\<close>

definition is_bit :: "char \<Rightarrow> bool" where
  "is_bit c = (c = CHR ''0'' \<or> c = CHR ''1'')"

definition bits_value :: "string \<Rightarrow> nat" where
  "bits_value s = foldl (\<lambda>acc c. 2 * acc + (if c = CHR ''1'' then 1 else 0)) 0 s"

definition int2 :: "string \<Rightarrow> error + nat" where
  "int2 s = (if s \<noteq> [] \<and> list_all is_bit s then Inr (bits_value s) else Inl ValueError)"

text \<open>
  \<^verbatim>\<open>bytearray(int(padded_data[i:i + 8], 2) for i in range(0, len(padded_data), 8))\<close>:
  the slices of width 8 (the last one shorter when the length is no multiple of 8),
  each read as a number; \<^verbatim>\<open>bytearray\<close> raises \<^verbatim>\<open>ValueError\<close> for a number
  above 255.
\<close>

function chunks8 :: "string \<Rightarrow> string list" where
  "chunks8 s = (if s = [] then [] else take 8 s # chunks8 (drop 8 s))"
  by pat_completeness auto
termination
  by (relation "measure length") auto

declare chunks8.simps [simp del]

fun to_bytes :: "string list \<Rightarrow> error + nat list" where
  "to_bytes [] = Inr []"
| "to_bytes (c # cs) =
     (case int2 c of
        Inl e \<Rightarrow> Inl e
      | Inr b \<Rightarrow>
          if b > 255 then Inl ValueError
          else (case to_bytes cs of Inl e \<Rightarrow> Inl e | Inr bs \<Rightarrow> Inr (b # bs)))"

definition get_byte_array :: "string \<Rightarrow> error + nat list" where
  "get_byte_array padded_data = to_bytes (chunks8 padded_data)"

subsection \<open>Unpacking and decoding\<close>

text \<open>
  A Python slice \<^verbatim>\<open>s[i:j]\<close>: a negative bound counts from the end, and both bounds
  are clipped to the string.
\<close>

definition slice_bound :: "int \<Rightarrow> nat \<Rightarrow> nat" where
  "slice_bound i n = (if i < 0 then nat (max 0 (i + int n)) else min (nat i) n)"

definition py_slice :: "'b list \<Rightarrow> int \<Rightarrow> int \<Rightarrow> 'b list" where
  "py_slice s i j =
     (let a = slice_bound i (length s); b = slice_bound j (length s)
      in take (b - a) (drop a s))"

definition remove_padding :: "string \<Rightarrow> error + string" where
  "remove_padding padded_data =
     (case int2 (py_slice padded_data 0 8) of
        Inl e \<Rightarrow> Inl e
      | Inr padding \<Rightarrow> Inr (py_slice padded_data 8 (- int padding)))"

text \<open>
  The loop of \<^verbatim>\<open>_decode_data\<close> with its two variables; the function returns the
  output list and forgets \<^verbatim>\<open>current_code\<close>.
\<close>

fun decode_loop :: "(string \<rightharpoonup> 'a) \<Rightarrow> string \<Rightarrow> 'a list \<Rightarrow> string \<Rightarrow> string \<times> 'a list" where
  "decode_loop rm current_code output [] = (current_code, output)"
| "decode_loop rm current_code output (b # bit_string) =
     (let current_code' = current_code @ [b] in
      case rm current_code' of
        Some s \<Rightarrow> decode_loop rm [] (output @ [s]) bit_string
      | None \<Rightarrow> decode_loop rm current_code' output bit_string)"

definition decode_data :: "(string \<rightharpoonup> 'a) \<Rightarrow> string \<Rightarrow> 'a list" where
  "decode_data rm bit_string = snd (decode_loop rm [] [] bit_string)"

subsection \<open>compress and decompress\<close>

text \<open>
  The part of \<^verbatim>\<open>compress\<close> between reading the file and pickling the container,
  and the part of \<^verbatim>\<open>decompress\<close> between unpickling and writing the file. The
  container keeps the fields the codec reads back: bytes, reverse_mapping and padding
  (type and shape are passed through to the writer). A fresh
  \<^verbatim>\<open>HuffmanCoding\<close> object starts with an empty heap and empty tables.
\<close>

record 'a container =
  c_bytes :: "nat list"
  c_reverse_mapping :: "string \<rightharpoonup> 'a"
  c_padding :: nat

definition compress :: "'a list \<Rightarrow> error + 'a container" where
  "compress data =
     (let freq_dict = build_frequency_dict data;
          heap = build_heap [] freq_dict
      in case merge_nodes heap of
           Inl e \<Rightarrow> Inl e
         | Inr heap1 \<Rightarrow>
             (case build_codes heap1 empty_tables of
                Inl e \<Rightarrow> Inl e
              | Inr (heap2, t) \<Rightarrow>
                  (case get_encoded_data (codes t) data of
                     Inl e \<Rightarrow> Inl e
                   | Inr encoded_data \<Rightarrow>
                       (let (padded_data, padding) = pad_encoded_data encoded_data in
                        case get_byte_array padded_data of
                          Inl e \<Rightarrow> Inl e
                        | Inr byte_array \<Rightarrow>
                            Inr \<lparr>c_bytes = byte_array,
                                 c_reverse_mapping = reverse_mapping t,
                                 c_padding = padding\<rparr>))))"

definition expand_bytes :: "nat list \<Rightarrow> string" where
  "expand_bytes byte_array = concat (map format_08b byte_array)"

definition decompress :: "'a container \<Rightarrow> error + 'a list" where
  "decompress c =
     (let bit_string = expand_bytes (c_bytes c) in
      case remove_padding bit_string of
        Inl e \<Rightarrow> Inl e
      | Inr bit_string' \<Rightarrow> Inr (decode_data (c_reverse_mapping c) bit_string'))"


subsection \<open>Notions used in the proofs\<close>

text \<open>
  The list of assignments \<^verbatim>\<open>_build_codes_helper\<close> makes, in the order it makes them;
  one assignment; the two shapes a node built by \<^verbatim>\<open>_build_heap\<close> and
  \<^verbatim>\<open>_merge_nodes\<close> can have; the symbols below a node and in a heap.
\<close>

fun code_list :: "'a node option \<Rightarrow> string \<Rightarrow> ('a \<times> string) list" where
  "code_list None code = []"
| "code_list (Some (Node sy f l r)) code =
     (case sy of Some s \<Rightarrow> [(s, code)] | None \<Rightarrow> [])
       @ code_list l (code @ ''0'') @ code_list r (code @ ''1'')"

definition assign :: "'a tables \<Rightarrow> 'a \<times> string \<Rightarrow> 'a tables" where
  "assign t sc = t\<lparr>codes := (codes t)(fst sc \<mapsto> snd sc),
                   reverse_mapping := (reverse_mapping t)(snd sc \<mapsto> fst sc)\<rparr>"

fun wf_node :: "'a node \<Rightarrow> bool" where
  "wf_node (Node (Some s) f None None) = True"
| "wf_node (Node None f (Some a) (Some b)) = (wf_node a \<and> wf_node b)"
| "wf_node (Node sy f l r) = False"

fun syms :: "'a node \<Rightarrow> 'a multiset" where
  "syms (Node sy f l r) =
     (case sy of Some s \<Rightarrow> {#s#} | None \<Rightarrow> {#})
       + (case l of Some a \<Rightarrow> syms a | None \<Rightarrow> {#})
       + (case r of Some b \<Rightarrow> syms b | None \<Rightarrow> {#})"

definition heap_syms :: "'a node list \<Rightarrow> 'a multiset" where
  "heap_syms h = sum_mset (image_mset syms (mset h))"


text \<open>
  The three calls of \<^verbatim>\<open>compress\<close> that turn a frequency table into the code tables:
  \<^verbatim>\<open>_build_heap\<close>, \<^verbatim>\<open>_merge_nodes\<close>, \<^verbatim>\<open>_build_codes\<close>, on a fresh object.
\<close>

definition code_tables :: "('a \<times> nat) list \<Rightarrow> error + 'a tables" where
  "code_tables freq_dict =
     (case merge_nodes (build_heap [] freq_dict) of
        Inl e \<Rightarrow> Inl e
      | Inr heap1 \<Rightarrow>
          (case build_codes heap1 empty_tables of
             Inl e \<Rightarrow> Inl e
           | Inr (heap2, t) \<Rightarrow> Inr t))"


section \<open>Properties\<close>

subsection \<open>Numbers and bit strings\<close>

lemma bits_value_snoc:
  "bits_value (s @ [c]) = 2 * bits_value s + (if c = CHR ''1'' then 1 else 0)"
  by (simp add: bits_value_def)

lemma bits_value_Nil [simp]: "bits_value [] = 0"
  by (simp add: bits_value_def)

lemma bits_value_bit_char: "d < 2 \<Longrightarrow> bits_value [bit_char d] = d"
  by (auto simp: bits_value_def bit_char_def)

lemma bits_value_bin_digits: "bits_value (bin_digits n) = n"
proof (induction n rule: bin_digits.induct)
  case (1 n)
  show ?case
  proof (cases "n < 2")
    case True
    then show ?thesis by (subst bin_digits.simps) (simp add: bits_value_bit_char)
  next
    case False
    with 1 have "bits_value (bin_digits (n div 2)) = n div 2" by simp
    moreover have "(if bit_char (n mod 2) = CHR ''1'' then 1 else 0) = n mod 2"
      by (auto simp: bit_char_def)
    ultimately show ?thesis using False
      by (subst bin_digits.simps) (simp add: bits_value_snoc)
  qed
qed

lemma bits_value_zeros: "bits_value (replicate k CHR ''0'' @ s) = bits_value s"
proof -
  have "foldl (\<lambda>acc c. 2 * acc + (if c = CHR ''1'' then 1 else 0)) (0::nat) (replicate k CHR ''0'') = 0"
    by (induction k) simp_all
  then show ?thesis by (simp add: bits_value_def)
qed

lemma is_bit_bit_char [simp]: "is_bit (bit_char d)"
  by (simp add: is_bit_def bit_char_def)

lemma is_bit_zero [simp]: "is_bit CHR ''0''"
  by (simp add: is_bit_def)

lemma is_bit_bin_digits: "list_all is_bit (bin_digits n)"
  by (induction n rule: bin_digits.induct)
     (subst bin_digits.simps, simp)

lemma bin_digits_nonempty: "bin_digits n \<noteq> []"
  by (subst bin_digits.simps) simp

lemma length_bin_digits: "n < 2 ^ k \<Longrightarrow> 0 < k \<Longrightarrow> length (bin_digits n) \<le> k"
proof (induction n arbitrary: k rule: bin_digits.induct)
  case (1 n)
  show ?case
  proof (cases "n < 2")
    case True
    with 1(3) show ?thesis by (subst bin_digits.simps) simp
  next
    case False
    then obtain k' where k: "k = Suc k'" "0 < k'"
      using 1(2,3) by (cases k; cases "k - 1") auto
    with 1(2) have "n div 2 < 2 ^ k'" by auto
    with 1(1) False k have "length (bin_digits (n div 2)) \<le> k'" by simp
    with False k show ?thesis by (subst bin_digits.simps) simp
  qed
qed

lemma length_format_08b: "n < 256 \<Longrightarrow> length (format_08b n) = 8"
  using length_bin_digits [of n 8] by (simp add: format_08b_def)

lemma is_bit_format_08b: "list_all is_bit (format_08b n)"
  using is_bit_bin_digits [of n] by (auto simp: format_08b_def list_all_iff)

lemma int2_format_08b: "int2 (format_08b n) = Inr n"
  using is_bit_format_08b [of n] bin_digits_nonempty [of n]
  by (simp add: int2_def) (simp add: format_08b_def bits_value_zeros bits_value_bin_digits)

text \<open>
  Claim C7. For every encoded bit string the padding step takes
  \<open>extra = 8 - (length mod 8)\<close>, which lies between 1 and 8 (so a full byte of padding
  is added when the length is already a multiple of 8), puts \<open>extra\<close> in front as a
  header of exactly 8 bits that reads back as \<open>extra\<close>, appends \<open>extra\<close> zero bits, and
  the length of the result is a multiple of 8.
\<close>

theorem pad_encoded_data_padding: "pad_encoded_data e =
     (format_08b (8 - length e mod 8) @ e @ replicate (8 - length e mod 8) CHR ''0'',
      8 - length e mod 8)
   \<and> 1 \<le> snd (pad_encoded_data e) \<and> snd (pad_encoded_data e) \<le> 8
   \<and> length (format_08b (snd (pad_encoded_data e))) = 8
   \<and> int2 (format_08b (snd (pad_encoded_data e))) = Inr (snd (pad_encoded_data e))
   \<and> length (fst (pad_encoded_data e)) mod 8 = 0"
proof -
  let ?x = "8 - length e mod 8"
  have x: "1 \<le> ?x" "?x \<le> 8" by simp_all
  have l: "length (format_08b ?x) = 8" by (rule length_format_08b) simp
  have m: "(8 + (length e + ?x)) mod 8 = 0" by presburger
  show ?thesis using x l m by (simp add: pad_encoded_data_def Let_def int2_format_08b)
qed

text \<open>
  Claim C5 says that compressing the empty sequence fails with EmptyInputError. The
  source defines no such exception and has no check for an empty input: on the empty
  text the exception that leaves \<^verbatim>\<open>compress\<close> is Python's \<^verbatim>\<open>IndexError\<close>.
\<close>

theorem compress_empty_input_counterexample:
  "compress '''' = Inl IndexError \<and> exception_name IndexError \<noteq> ''EmptyInputError''"
  by (simp add: compress_def build_frequency_dict_def build_heap_def merge_nodes.simps
      build_codes_def heappop_def)

text \<open>
  Claim C5, as the code has it. Compressing a symbol sequence of length 0 fails and
  yields no container: the frequency table is empty, the heap stays empty, the loop of
  \<^verbatim>\<open>_merge_nodes\<close> is not entered, and the \<^verbatim>\<open>heappop\<close> of
  \<^verbatim>\<open>_build_codes\<close> raises \<^verbatim>\<open>IndexError\<close> on the empty heap, before anything is
  encoded or written.
\<close>

theorem compress_empty_input:
  "build_frequency_dict ([] :: 'a list) = [] \<and>
   build_heap [] (build_frequency_dict ([] :: 'a list)) = [] \<and>
   merge_nodes ([] :: 'a node list) = Inr [] \<and>
   build_codes ([] :: 'a node list) empty_tables = Inl IndexError \<and>
   compress ([] :: 'a list) = Inl IndexError"
  by (simp add: compress_def build_frequency_dict_def build_heap_def merge_nodes.simps
      build_codes_def heappop_def)

lemma py_slice_zero_stop: "py_slice s 8 0 = []"
  by (simp add: py_slice_def slice_bound_def)

text \<open>
  Claim C10. For every bit string whose first 8 bits read as the number 0, the
  padding removal returns the empty string whatever the rest of the payload is (the
  slice from 8 to \<open>-0\<close> is empty), and a container with that payload decompresses to the
  empty symbol sequence without an error.
\<close>

theorem remove_padding_zero_header:
  assumes "int2 (py_slice s 0 8) = Inr 0"
  shows "remove_padding s = Inr [] \<and>
         (expand_bytes (c_bytes c) = s \<longrightarrow> decompress c = Inr [])"
  using assms by (simp add: remove_padding_def decompress_def decode_data_def py_slice_zero_stop)

theorem remove_padding_zero_header_witness:
  "int2 (py_slice ''0000000010110101'' 0 8) = Inr 0 \<and>
   expand_bytes (c_bytes \<lparr>c_bytes = [0, 181], c_reverse_mapping = [''1'' \<mapsto> CHR ''a''], c_padding = 0\<rparr>)
     = ''0000000010110101'' \<and>
   remove_padding ''0000000010110101'' = Inr [] \<and>
   decompress \<lparr>c_bytes = [0, 181], c_reverse_mapping = [''1'' \<mapsto> CHR ''a''], c_padding = 0\<rparr>
     = Inr []"
proof -
  have h: "int2 (py_slice ''0000000010110101'' 0 8) = Inr 0"
    by (simp add: int2_def py_slice_def slice_bound_def is_bit_def bits_value_def)
  have e: "expand_bytes (c_bytes \<lparr>c_bytes = [0, 181], c_reverse_mapping = [''1'' \<mapsto> CHR ''a''], c_padding = 0\<rparr>)
     = ''0000000010110101''"
    by code_simp
  show ?thesis
    using h e remove_padding_zero_header [OF h, of "\<lparr>c_bytes = [0, 181], c_reverse_mapping = [''1'' \<mapsto> CHR ''a''], c_padding = 0\<rparr>"]
    by simp
qed

lemma map_of_incr:
  "map_of (incr k fr) = (map_of fr)(k \<mapsto> (case map_of fr k of None \<Rightarrow> 1 | Some c \<Rightarrow> c + 1))"
  by (induction k fr rule: incr.induct) (auto simp: fun_eq_iff)

lemma keys_incr: "fst ` set (incr k fr) = insert k (fst ` set fr)"
  by (induction k fr rule: incr.induct) auto

lemma distinct_incr: "distinct (map fst fr) \<Longrightarrow> distinct (map fst (incr k fr))"
  by (induction k fr rule: incr.induct) (auto simp: keys_incr)

lemma sum_incr: "sum_list (map snd (incr k fr)) = Suc (sum_list (map snd fr))"
  by (induction k fr rule: incr.induct) auto

lemma build_frequency_dict_snoc:
  "build_frequency_dict (data @ [x]) = incr x (build_frequency_dict data)"
  by (simp add: build_frequency_dict_def)

lemma keys_build_frequency_dict: "fst ` set (build_frequency_dict data) = set data"
  by (induction data rule: rev_induct)
     (simp_all add: build_frequency_dict_snoc keys_incr, simp add: build_frequency_dict_def)

lemma distinct_build_frequency_dict: "distinct (map fst (build_frequency_dict data))"
  by (induction data rule: rev_induct)
     (simp_all add: build_frequency_dict_snoc distinct_incr, simp add: build_frequency_dict_def)

lemma sum_build_frequency_dict: "sum_list (map snd (build_frequency_dict data)) = length data"
  by (induction data rule: rev_induct)
     (simp_all add: build_frequency_dict_snoc sum_incr, simp add: build_frequency_dict_def)

lemma count_list_snoc: "count_list (xs @ [x]) y = count_list xs y + (if x = y then 1 else 0)"
  by (induction xs) auto

lemma map_of_build_frequency_dict:
  "map_of (build_frequency_dict data) s =
     (if s \<in> set data then Some (count_list data s) else None)"
proof (induction data rule: rev_induct)
  case Nil
  show ?case by (simp add: build_frequency_dict_def)
next
  case (snoc x xs)
  then show ?case
    by (auto simp: build_frequency_dict_snoc map_of_incr count_list_snoc)
qed

text \<open>
  Claim C8. For every symbol sequence the frequency table has exactly the distinct
  symbols of the sequence as its keys, each once, maps each of them to the number of
  its occurrences, which is positive, and the counts add up to the length of the
  sequence.
\<close>

theorem build_frequency_dict_counts:
  "distinct (map fst (build_frequency_dict data)) \<and>
   set (map fst (build_frequency_dict data)) = set data \<and>
   (\<forall>s \<in> set data. map_of (build_frequency_dict data) s = Some (count_list data s)
                          \<and> 0 < count_list data s) \<and>
   sum_list (map snd (build_frequency_dict data)) = length data"
proof -
  have "0 < count_list data s" if "s \<in> set data" for s
    using that count_list_0_iff [of data s] by auto
  then show ?thesis
    by (simp add: distinct_build_frequency_dict sum_build_frequency_dict
        map_of_build_frequency_dict keys_build_frequency_dict)
qed

theorem build_frequency_dict_counts_witness:
  "CHR ''a'' \<in> set ''abca'' \<and> map_of (build_frequency_dict ''abca'') CHR ''a'' = Some 2 \<and>
   sum_list (map snd (build_frequency_dict ''abca'')) = length ''abca''"
  using build_frequency_dict_counts [of "''abca''"] by simp


subsection \<open>Bytes and padding\<close>

lemma is_bit_cases: "is_bit c \<Longrightarrow> c = CHR ''0'' \<or> c = CHR ''1''"
  by (simp add: is_bit_def)

lemma bit_char_of_bit: "is_bit c \<Longrightarrow> bit_char (if c = CHR ''1'' then 1 else 0) = c"
  by (auto simp: is_bit_def bit_char_def)

lemma bin_digits_small: "n < 2 \<Longrightarrow> bin_digits n = [bit_char n]"
  by (subst bin_digits.simps) simp

lemma bin_digits_double:
  "0 < v \<Longrightarrow> d < 2 \<Longrightarrow> bin_digits (2 * v + d) = bin_digits v @ [bit_char d]"
  by (subst bin_digits.simps) simp

lemma format_bits_value_aux:
  "list_all is_bit s \<Longrightarrow> s \<noteq> [] \<Longrightarrow>
     length (bin_digits (bits_value s)) \<le> length s \<and>
     replicate (length s - length (bin_digits (bits_value s))) CHR ''0''
       @ bin_digits (bits_value s) = s"
proof (induction s rule: rev_induct)
  case Nil
  then show ?case by simp
next
  case (snoc c xs)
  let ?d = "if c = CHR ''1'' then 1 else 0 :: nat"
  from snoc.prems have c: "is_bit c" and xs: "list_all is_bit xs" by simp_all
  have d: "?d < 2" by simp
  have bc: "bit_char ?d = c" using c by (rule bit_char_of_bit)
  have val: "bits_value (xs @ [c]) = 2 * bits_value xs + ?d" by (rule bits_value_snoc)
  show ?case
  proof (cases "bits_value xs = 0")
    case True
    have zs: "replicate (length xs) CHR ''0'' = xs"
    proof (cases "xs = []")
      case True then show ?thesis by simp
    next
      case False
      with snoc.IH xs True have "replicate (length xs - 1) CHR ''0'' @ ''0'' = xs"
        by (simp add: bin_digits_small bit_char_def)
      moreover have "0 < length xs" using False by simp
      ultimately show ?thesis
        by (metis Suc_pred' replicate_Suc replicate_append_same)
    qed
    have "bin_digits (bits_value (xs @ [c])) = [c]"
      using True bc d by (simp only: val) (simp add: bin_digits_small)
    then show ?thesis using zs by simp
  next
    case False
    then have ne: "xs \<noteq> []" by auto
    from snoc.IH [OF xs ne] have
      le: "length (bin_digits (bits_value xs)) \<le> length xs" and
      eq: "replicate (length xs - length (bin_digits (bits_value xs))) CHR ''0''
             @ bin_digits (bits_value xs) = xs" by simp_all
    have bd: "bin_digits (bits_value (xs @ [c])) = bin_digits (bits_value xs) @ [c]"
      using False d bc by (simp only: val) (simp add: bin_digits_double)
    show ?thesis using le eq by (simp add: bd)
  qed
qed

lemma format_08b_bits_value:
  "list_all is_bit s \<Longrightarrow> length s = 8 \<Longrightarrow> format_08b (bits_value s) = s"
proof -
  assume b: "list_all is_bit s" and l: "length s = 8"
  then have "s \<noteq> []" by auto
  from format_bits_value_aux [OF b this] l show ?thesis by (simp add: format_08b_def)
qed

lemma bits_value_bound: "bits_value s < 2 ^ length s"
proof (induction s rule: rev_induct)
  case Nil
  show ?case by simp
next
  case (snoc c xs)
  then show ?case by (simp add: bits_value_snoc)
qed

lemma bits_value_byte: "length s \<le> 8 \<Longrightarrow> bits_value s \<le> 255"
proof -
  assume "length s \<le> 8"
  then have "(2::nat) ^ length s \<le> 2 ^ 8" by (rule power_increasing) simp
  with bits_value_bound [of s] show ?thesis by simp
qed

lemma chunks8_Nil [simp]: "chunks8 [] = []"
  by (subst chunks8.simps) simp

lemma chunks8_block:
  "length c = 8 \<Longrightarrow> chunks8 (c @ s) = c # chunks8 s"
  by (subst chunks8.simps) auto

lemma to_bytes_chunks8:
  "list_all is_bit s \<Longrightarrow> 8 dvd length s \<Longrightarrow>
     to_bytes (chunks8 s) = Inr (map bits_value (chunks8 s)) \<and>
     concat (map format_08b (map bits_value (chunks8 s))) = s"
proof (induction s rule: chunks8.induct)
  case (1 s)
  show ?case
  proof (cases "s = []")
    case True
    then show ?thesis by simp
  next
    case False
    with "1.prems" have len: "8 \<le> length s"
      by (auto dest: dvd_imp_le)
    let ?c = "take 8 s" and ?r = "drop 8 s"
    have c: "length ?c = 8" "list_all is_bit ?c" "?c \<noteq> []"
      using len "1.prems"(1) False by (auto simp: list_all_iff dest: in_set_takeD)
    have r: "list_all is_bit ?r" "8 dvd length ?r"
      using "1.prems" len by (auto simp: list_all_iff dest: in_set_dropD)
    from "1.IH" [OF False r] have
      ih: "to_bytes (chunks8 ?r) = Inr (map bits_value (chunks8 ?r))"
          "concat (map format_08b (map bits_value (chunks8 ?r))) = ?r" by simp_all
    have ch: "chunks8 s = ?c # chunks8 ?r"
      using False by (subst chunks8.simps) simp
    have byte: "\<not> 255 < bits_value ?c"
      using bits_value_byte [of ?c] by simp
    have i2: "int2 ?c = Inr (bits_value ?c)"
      using c by (simp add: int2_def)
    have fmt: "format_08b (bits_value ?c) = ?c"
      using c by (simp add: format_08b_bits_value)
    show ?thesis
      using ih byte by (simp add: ch i2 fmt)
  qed
qed

lemma is_bit_padded: "list_all is_bit e \<Longrightarrow> list_all is_bit (fst (pad_encoded_data e))"
  using is_bit_format_08b by (auto simp: pad_encoded_data_def Let_def list_all_iff)

lemma remove_padding_padded:
  assumes h: "length hdr = 8" and i: "int2 hdr = Inr x" and x: "0 < x"
  shows "remove_padding (hdr @ e @ replicate x c) = Inr e"
proof -
  have a: "py_slice (hdr @ e @ replicate x c) 0 8 = hdr"
    using h by (simp add: py_slice_def slice_bound_def)
  have b: "py_slice (hdr @ e @ replicate x c) 8 (- int x) = e"
    using h x by (simp add: py_slice_def slice_bound_def)
  show ?thesis by (simp add: remove_padding_def a i b)
qed

lemma packed_bytes:
  assumes "list_all is_bit e"
  shows "get_byte_array (fst (pad_encoded_data e))
           = Inr (map bits_value (chunks8 (fst (pad_encoded_data e))))"
    and "remove_padding (expand_bytes (map bits_value (chunks8 (fst (pad_encoded_data e)))))
           = Inr e"
proof -
  let ?p = "fst (pad_encoded_data e)"
  let ?x = "8 - length e mod 8"
  have p: "?p = format_08b ?x @ e @ replicate ?x CHR ''0''"
    by (simp add: pad_encoded_data_def Let_def)
  have bits: "list_all is_bit ?p" using assms by (rule is_bit_padded)
  have hl: "length (format_08b ?x) = 8" by (rule length_format_08b) simp
  have "(8 + (length e + ?x)) mod 8 = 0" by presburger
  then have dv: "8 dvd length ?p"
    unfolding p by (simp add: hl dvd_eq_mod_eq_0)
  from to_bytes_chunks8 [OF bits dv] have
    gb: "get_byte_array ?p = Inr (map bits_value (chunks8 ?p))" and
    ex: "expand_bytes (map bits_value (chunks8 ?p)) = ?p"
    by (simp_all add: get_byte_array_def expand_bytes_def)
  have rm: "remove_padding ?p = Inr e"
    unfolding p by (rule remove_padding_padded [OF hl int2_format_08b]) simp
  show "get_byte_array ?p = Inr (map bits_value (chunks8 ?p))" by (rule gb)
  show "remove_padding (expand_bytes (map bits_value (chunks8 ?p))) = Inr e"
    by (simp add: ex rm)
qed

text \<open>
  Claim C9. For every bit string \<open>e\<close>, padding it, grouping the result into bytes
  (which raises nothing), expanding the bytes back to 8 bits each and removing header
  and padding gives \<open>e\<close> again: the packing layer alone is lossless, whatever the code
  table is.
\<close>

theorem pack_unpack_roundtrip:
  assumes "list_all is_bit e"
  shows "case get_byte_array (fst (pad_encoded_data e)) of
           Inl err \<Rightarrow> False
         | Inr byte_array \<Rightarrow> remove_padding (expand_bytes byte_array) = Inr e"
  using packed_bytes [OF assms] by simp

theorem pack_unpack_roundtrip_witness:
  "list_all is_bit ''101'' \<and>
   get_byte_array (fst (pad_encoded_data ''101'')) = Inr [5, 160] \<and>
   remove_padding (expand_bytes [5, 160]) = Inr ''101''"
proof -
  have h: "list_all is_bit ''101''" by (simp add: is_bit_def)
  have g: "get_byte_array (fst (pad_encoded_data ''101'')) = Inr [5, 160]" by code_simp
  show ?thesis using h g pack_unpack_roundtrip [OF h] by simp
qed


subsection \<open>Padding removal\<close>

text \<open>
  Claim C4 says that a padding count outside 0 to 8, or above the number of remaining
  bits, is rejected. \<^verbatim>\<open>_remove_padding\<close> has no such check: a header of 9 in front
  of 16 bits gives the first 7 of them, and a header of 8 in front of 3 bits gives the
  empty string.
\<close>

theorem remove_padding_out_of_range_counterexample:
  "remove_padding ''000010011010101011111111'' = Inr ''1010101'' \<and>
   remove_padding ''00001000101'' = Inr []"
  by (simp add: remove_padding_def py_slice_def slice_bound_def int2_def is_bit_def bits_value_def)

lemma py_slice_head: "py_slice s 0 8 = take 8 s"
  by (simp add: py_slice_def slice_bound_def min_def)

lemma py_slice_tail:
  "py_slice s 8 (- int p) =
     (if 1 \<le> p \<and> p + 8 \<le> length s then take (length s - 8 - p) (drop 8 s) else [])"
  by (auto simp: py_slice_def slice_bound_def Let_def min_def max_def nat_diff_distrib'
      nat_add_distrib add.commute)

text \<open>
  Claim C4, as the code has it. For every bit string, the padding removal reads the
  first 8 bits (fewer when the string is shorter) as the padding count \<open>p\<close> and checks
  no range. When \<open>1 \<le> p\<close> and \<open>p\<close> is at most the number of remaining bits, it strips
  the 8 header bits and exactly \<open>p\<close> trailing bits; when \<open>p\<close> is 0 or above the
  number of remaining bits it returns the empty string. It fails only on the empty
  string, where \<^verbatim>\<open>int\<close> raises \<^verbatim>\<open>ValueError\<close>.
\<close>

theorem remove_padding_no_range_check:
  assumes "list_all is_bit s"
  shows "remove_padding s =
     (if s = [] then Inl ValueError
      else (let p = bits_value (take 8 s) in
            Inr (if 1 \<le> p \<and> p + 8 \<le> length s
                 then take (length s - 8 - p) (drop 8 s) else [])))"
proof (cases "s = []")
  case True
  then show ?thesis by (simp add: remove_padding_def py_slice_head int2_def)
next
  case False
  have "list_all is_bit (take 8 s)"
    using assms by (auto simp: list_all_iff dest: in_set_takeD)
  with False have "int2 (take 8 s) = Inr (bits_value (take 8 s))"
    by (simp add: int2_def)
  with False show ?thesis
    by (simp add: remove_padding_def py_slice_head py_slice_tail Let_def)
qed

theorem remove_padding_no_range_check_witness:
  "list_all is_bit ''0000001110110000'' \<and> remove_padding ''0000001110110000'' = Inr ''10110''"
proof -
  have h: "list_all is_bit ''0000001110110000''" by (simp add: is_bit_def)
  have v: "bits_value ''00000011'' = 3" by (simp add: bits_value_def)
  show ?thesis using h remove_padding_no_range_check [OF h] by (simp add: v Let_def)
qed

subsection \<open>The decoding loop\<close>

lemma decode_loop_append:
  "decode_loop rm cur out (xs @ ys) =
     decode_loop rm (fst (decode_loop rm cur out xs)) (snd (decode_loop rm cur out xs)) ys"
  by (induction xs arbitrary: cur out) (simp_all add: Let_def split: option.splits)

lemma decode_loop_unfinished:
  "\<forall>k \<in> {1..length t}. rm (cur @ take k t) = None \<Longrightarrow>
     decode_loop rm cur out t = (cur @ t, out)"
proof (induction t arbitrary: cur)
  case Nil
  show ?case by simp
next
  case (Cons b t)
  have one: "rm (cur @ [b]) = None"
    using Cons.prems by (auto dest: bspec [where x = 1])
  have "\<forall>k \<in> {1..length t}. rm ((cur @ [b]) @ take k t) = None"
  proof
    fix k assume "k \<in> {1..length t}"
    then have "Suc k \<in> {1..length (b # t)}" by simp
    with Cons.prems have "rm (cur @ take (Suc k) (b # t)) = None" by blast
    then show "rm ((cur @ [b]) @ take k t) = None" by simp
  qed
  from Cons.IH [OF this] one show ?case by simp
qed

text \<open>
  Claim C3, as the code has it. \<^verbatim>\<open>_decode_data\<close> returns its output list whatever
  is left in \<^verbatim>\<open>current_code\<close>: when the bits are a part \<open>xs\<close> that decodes with
  nothing left over followed by an unfinished code \<open>t\<close> (no prefix of \<open>t\<close> is a key of
  the table), the loop ends with \<open>t\<close> in the accumulator and the result is the decoding
  of \<open>xs\<close>; decompress returns it without an error.
\<close>

theorem decode_data_drops_leftover:
  assumes "fst (decode_loop rm [] [] xs) = []"
      and "\<forall>k \<in> {1..length t}. rm (take k t) = None"
  shows "decode_loop rm [] [] (xs @ t) = (t, decode_data rm xs) \<and>
         (remove_padding (expand_bytes (c_bytes c)) = Inr (xs @ t) \<and> c_reverse_mapping c = rm
            \<longrightarrow> decompress c = Inr (decode_data rm xs))"
proof -
  from assms(2) have "decode_loop rm [] (decode_data rm xs) t = ([] @ t, decode_data rm xs)"
    by (intro decode_loop_unfinished) simp
  with assms(1) have a: "decode_loop rm [] [] (xs @ t) = (t, decode_data rm xs)"
    by (simp add: decode_loop_append decode_data_def)
  then show ?thesis by (auto simp: decompress_def decode_data_def)
qed

text \<open>
  Claim C3 says that a non-empty accumulator after the last bit is an error. With the
  table 0 \<open>\<mapsto>\<close> a, 10 \<open>\<mapsto>\<close> b and the payload bits 01 (bytes 6 and 64), the loop ends
  with the accumulator 1 and decompress returns the one symbol a.
\<close>

theorem decode_leftover_counterexample:
  "fst (decode_loop [''0'' \<mapsto> CHR ''a'', ''10'' \<mapsto> CHR ''b''] [] [] ''01'') = ''1'' \<and>
   remove_padding (expand_bytes [6, 64]) = Inr ''01'' \<and>
   decompress \<lparr>c_bytes = [6, 64],
               c_reverse_mapping = [''0'' \<mapsto> CHR ''a'', ''10'' \<mapsto> CHR ''b''],
               c_padding = 6\<rparr> = Inr ''a''"
  by code_simp

theorem decode_data_drops_leftover_witness:
  "fst (decode_loop [''0'' \<mapsto> CHR ''a'', ''10'' \<mapsto> CHR ''b''] [] [] ''0'') = [] \<and>
   [''0'' \<mapsto> CHR ''a'', ''10'' \<mapsto> CHR ''b''] ''1'' = None \<and>
   decode_loop [''0'' \<mapsto> CHR ''a'', ''10'' \<mapsto> CHR ''b''] [] [] ''01'' = (''1'', ''a'')"
proof -
  let ?rm = "[''0'' \<mapsto> CHR ''a'', ''10'' \<mapsto> CHR ''b'']"
  have h1: "fst (decode_loop ?rm [] [] ''0'') = []" by simp
  have h2: "\<forall>k \<in> {1..length ''1''}. ?rm (take k ''1'') = None" by simp
  have d: "decode_data ?rm ''0'' = ''a''" by (simp add: decode_data_def)
  from decode_data_drops_leftover [OF h1 h2]
  have "decode_loop ?rm [] [] (''0'' @ ''1'') = (''1'', decode_data ?rm ''0'')"
    by (rule conjunct1)
  then have "decode_loop ?rm [] [] ''01'' = (''1'', ''a'')"
    by (simp only: d append.simps)
  moreover have "?rm ''1'' = None" by simp
  ultimately show ?thesis using h1 by blast
qed


subsection \<open>The heap operations keep the elements\<close>

lemma mset_update_swap:
  "i < length h \<Longrightarrow> j < length h \<Longrightarrow> mset (h[i := h ! j, j := x]) = mset (h[i := x])"
  by (cases "i = j") (simp_all add: mset_update nth_list_update)

lemma mset_siftdown_loop:
  "pos < length heap \<Longrightarrow>
     mset (siftdown_loop heap startpos pos newitem) = mset (heap[pos := newitem])"
proof (induction heap startpos pos newitem rule: siftdown_loop.induct)
  case (1 heap startpos pos newitem)
  let ?pp = "(pos - 1) div 2"
  have pp: "?pp < length heap" using "1.prems" by simp
  show ?case
  proof (cases "pos > startpos \<and> node_lt newitem (heap ! ?pp)")
    case True
    then have "mset (siftdown_loop (heap[pos := heap ! ?pp]) startpos ?pp newitem)
                 = mset (heap[pos := heap ! ?pp, ?pp := newitem])"
      using "1.IH" [OF _ refl refl] pp by simp
    also have "\<dots> = mset (heap[pos := newitem])"
      using "1.prems" pp by (rule mset_update_swap)
    finally show ?thesis using True
      by (subst siftdown_loop.simps) (simp add: Let_def)
  next
    case False
    then show ?thesis by (subst siftdown_loop.simps) (auto simp: Let_def)
  qed
qed

lemma mset_siftdown: "pos < length heap \<Longrightarrow> mset (siftdown heap startpos pos) = mset heap"
  by (simp add: siftdown_def mset_siftdown_loop)

lemma siftup_loop_pos:
  "pos < length heap \<Longrightarrow> snd (siftup_loop heap pos) < length heap"
proof (induction heap pos rule: siftup_loop.induct)
  case (1 heap pos)
  show ?case
  proof (cases "2 * pos + 1 < length heap")
    case True
    define c where "c = (if 2 * pos + 1 + 1 < length heap
                 \<and> \<not> node_lt (heap ! (2 * pos + 1)) (heap ! (2 * pos + 1 + 1))
              then 2 * pos + 1 + 1 else 2 * pos + 1)"
    have c: "c < length heap" using True by (simp add: c_def)
    have step: "siftup_loop heap pos = siftup_loop (heap[pos := heap ! c]) c"
      using True unfolding c_def by (subst siftup_loop.simps) (simp add: Let_def)
    have "snd (siftup_loop (heap[pos := heap ! c]) c) < length (heap[pos := heap ! c])"
      using c by (intro "1.IH" [OF refl refl True refl c_def]) simp
    then show ?thesis by (simp add: step)
  next
    case False
    then show ?thesis using "1.prems" by (subst siftup_loop.simps) (simp add: Let_def)
  qed
qed

lemma mset_siftup_loop:
  "pos < length heap \<Longrightarrow>
     mset ((fst (siftup_loop heap pos))[snd (siftup_loop heap pos) := x])
       = mset (heap[pos := x])"
proof (induction heap pos rule: siftup_loop.induct)
  case (1 heap pos)
  show ?case
  proof (cases "2 * pos + 1 < length heap")
    case True
    define c where "c = (if 2 * pos + 1 + 1 < length heap
                 \<and> \<not> node_lt (heap ! (2 * pos + 1)) (heap ! (2 * pos + 1 + 1))
              then 2 * pos + 1 + 1 else 2 * pos + 1)"
    let ?h = "heap[pos := heap ! c]"
    have c: "c < length heap" using True by (simp add: c_def)
    have step: "siftup_loop heap pos = siftup_loop ?h c"
      using True unfolding c_def by (subst siftup_loop.simps) (simp add: Let_def)
    have "mset ((fst (siftup_loop ?h c))[snd (siftup_loop ?h c) := x]) = mset (?h[c := x])"
      using c by (intro "1.IH" [OF refl refl True refl c_def]) simp
    also have "\<dots> = mset (heap[pos := x])"
      using "1.prems" c by (rule mset_update_swap)
    finally show ?thesis by (simp add: step)
  next
    case False
    then have "siftup_loop heap pos = (heap, pos)"
      by (subst siftup_loop.simps) (simp add: Let_def)
    then show ?thesis by simp
  qed
qed

lemma mset_siftup: "pos < length heap \<Longrightarrow> mset (siftup heap pos) = mset heap"
proof -
  assume p: "pos < length heap"
  obtain h' p' where s: "siftup_loop heap pos = (h', p')" by (cases "siftup_loop heap pos")
  from siftup_loop_pos [OF p] length_siftup_loop [of heap pos] s
  have p': "p' < length (h'[p' := heap ! pos])" by simp
  from mset_siftup_loop [OF p, of "heap ! pos"] s
  have "mset (h'[p' := heap ! pos]) = mset heap" by simp
  with mset_siftdown [OF p'] show ?thesis by (simp add: siftup_def s)
qed

lemma mset_heappush: "mset (heappush heap item) = add_mset item (mset heap)"
  by (simp add: heappush_def mset_siftdown)

lemma mset_heappop:
  "heappop heap = Inr (x, heap') \<Longrightarrow> mset heap = add_mset x (mset heap')"
proof (cases heap rule: rev_cases)
  case Nil
  assume "heappop heap = Inr (x, heap')"
  with Nil show ?thesis by (simp add: heappop_def)
next
  case (snoc ys y)
  assume a: "heappop heap = Inr (x, heap')"
  show ?thesis
  proof (cases "ys = []")
    case True
    with a snoc show ?thesis by (simp add: heappop_def)
  next
    case False
    then have l: "0 < length (ys[0 := y])" by simp
    from a snoc False have x: "x = ys ! 0" and h: "heap' = siftup (ys[0 := y]) 0"
      by (simp_all add: heappop_def)
    have "mset heap' = mset (ys[0 := y])" unfolding h by (rule mset_siftup [OF l])
    also have "\<dots> = add_mset y (mset ys - {#ys ! 0#})"
      using False by (simp add: mset_update)
    finally show ?thesis using False snoc x by simp
  qed
qed

lemma heappop_nonempty: "heap \<noteq> [] \<Longrightarrow> \<exists>x heap'. heappop heap = Inr (x, heap')"
  by (simp add: heappop_def Let_def)


subsection \<open>The tree and its codes\<close>

lemma build_codes_helper_code_list:
  "build_codes_helper n code t = foldl assign t (code_list n code)"
  by (induction n code t rule: build_codes_helper.induct)
     (simp_all add: Let_def assign_def split: option.splits)

lemma syms_code_list: "mset (map fst (code_list (Some n) p)) = syms n"
proof (induction n arbitrary: p)
  case (Node sy f l r)
  have l: "image_mset fst (mset (code_list l q)) = (case l of Some a \<Rightarrow> syms a | None \<Rightarrow> {#})"
    for q using Node.IH(1) [of _ q] by (cases l) auto
  have r: "image_mset fst (mset (code_list r q)) = (case r of Some a \<Rightarrow> syms a | None \<Rightarrow> {#})"
    for q using Node.IH(2) [of _ q] by (cases r) auto
  show ?case by (cases sy) (simp_all add: l r)
qed

lemma wf_node_cases:
  assumes "wf_node n"
  obtains (leaf) s f where "n = Node (Some s) f None None"
        | (merged) f a b where "n = Node None f (Some a) (Some b)" "wf_node a" "wf_node b"
  using assms by (cases n rule: wf_node.cases) auto

lemma prefix_snoc_same:
  "prefix (p @ [a]) c \<Longrightarrow> prefix (p @ [b]) c \<Longrightarrow> a = b"
  by (auto simp: prefix_def append_eq_append_conv2 Cons_eq_append_conv)

lemma code_list_extends:
  "wf_node n \<Longrightarrow> (s, c) \<in> set (code_list (Some n) p) \<Longrightarrow>
     prefix p c \<and> list_all is_bit (drop (length p) c)"
proof (induction n arbitrary: p rule: wf_node.induct)
  case (1 s' f)
  then show ?case by simp
next
  case (2 f a b)
  from "2.prems" have w: "wf_node a" "wf_node b" by simp_all
  from "2.prems" consider "(s, c) \<in> set (code_list (Some a) (p @ ''0''))"
    | "(s, c) \<in> set (code_list (Some b) (p @ ''1''))" by auto
  then show ?case
  proof cases
    case 1
    from "2.IH"(1) [OF w(1) 1] show ?thesis
      by (auto simp: prefix_def is_bit_def)
  next
    case 2
    from "2.IH"(2) [OF w(2) 2] show ?thesis
      by (auto simp: prefix_def is_bit_def)
  qed
qed simp_all

lemma code_list_merged_nonempty:
  "wf_node (Node None f (Some a) (Some b)) \<Longrightarrow>
     (s, c) \<in> set (code_list (Some (Node None f (Some a) (Some b))) []) \<Longrightarrow> c \<noteq> []"
  by (auto dest: code_list_extends)

lemma code_list_prefix_free:
  "wf_node n \<Longrightarrow>
     distinct (map snd (code_list (Some n) p)) \<and>
     (\<forall>x \<in> set (code_list (Some n) p). \<forall>y \<in> set (code_list (Some n) p).
        prefix (snd x) (snd y) \<longrightarrow> snd x = snd y)"
proof (induction n arbitrary: p rule: wf_node.induct)
  case (1 s f)
  show ?case by simp
next
  case (2 f a b)
  from "2.prems" have w: "wf_node a" "wf_node b" by simp_all
  let ?A = "code_list (Some a) (p @ ''0'')" and ?B = "code_list (Some b) (p @ ''1'')"
  have cl: "code_list (Some (Node None f (Some a) (Some b))) p = ?A @ ?B" by simp
  have ext_a: "prefix (p @ ''0'') (snd x)" if "x \<in> set ?A" for x
    using code_list_extends [OF w(1), of "fst x" "snd x"] that by simp
  have ext_b: "prefix (p @ ''1'') (snd x)" if "x \<in> set ?B" for x
    using code_list_extends [OF w(2), of "fst x" "snd x"] that by simp
  have cross: "\<not> prefix (snd x) (snd y) \<and> \<not> prefix (snd y) (snd x)"
    if "x \<in> set ?A" "y \<in> set ?B" for x y
  proof (rule ccontr)
    assume "\<not> (\<not> prefix (snd x) (snd y) \<and> \<not> prefix (snd y) (snd x))"
    then have "prefix (p @ ''0'') (snd y) \<or> prefix (p @ ''1'') (snd x)"
      using ext_a [OF that(1)] ext_b [OF that(2)] by (auto intro: prefix_order.trans)
    then show False
      using ext_a [OF that(1)] ext_b [OF that(2)] by (auto dest: prefix_snoc_same)
  qed
  have d: "distinct (map snd ?A)" "distinct (map snd ?B)"
    using "2.IH"(1) [OF w(1)] "2.IH"(2) [OF w(2)] by simp_all
  have disj: "snd ` set ?A \<inter> snd ` set ?B = {}"
  proof (rule ccontr)
    assume "snd ` set ?A \<inter> snd ` set ?B \<noteq> {}"
    then obtain x y where "x \<in> set ?A" "y \<in> set ?B" "snd x = snd y" by auto
    with cross [of x y] show False by simp
  qed
  have pa: "\<forall>x \<in> set ?A. \<forall>y \<in> set ?A. prefix (snd x) (snd y) \<longrightarrow> snd x = snd y"
    using "2.IH"(1) [OF w(1)] by simp
  have pb: "\<forall>x \<in> set ?B. \<forall>y \<in> set ?B. prefix (snd x) (snd y) \<longrightarrow> snd x = snd y"
    using "2.IH"(2) [OF w(2)] by simp
  show ?case
    unfolding cl using d disj pa pb cross by (simp add: ball_Un)
qed simp_all

lemma assign_snoc: "foldl assign t (cl @ [x]) = assign (foldl assign t cl) x"
  by simp

lemma codes_foldl_assign:
  "distinct (map fst cl) \<Longrightarrow>
     codes (foldl assign empty_tables cl) s = map_of cl s"
proof (induction cl rule: rev_induct)
  case Nil
  show ?case by (simp add: empty_tables_def)
next
  case (snoc x xs)
  then have "map_of xs (fst x) = None"
    by (auto simp: map_of_eq_None_iff)
  with snoc show ?case
    by (cases x) (auto simp: assign_def map_add_def split: option.splits)
qed

lemma reverse_mapping_foldl_assign:
  "distinct (map snd cl) \<Longrightarrow>
     reverse_mapping (foldl assign empty_tables cl) c = map_of (map (\<lambda>(s, c). (c, s)) cl) c"
proof (induction cl rule: rev_induct)
  case Nil
  show ?case by (simp add: empty_tables_def)
next
  case (snoc x xs)
  then have "snd x \<notin> snd ` set xs" by auto
  then have "map_of (map (\<lambda>(s, c). (c, s)) xs) (snd x) = None"
    by (simp add: map_of_eq_None_iff image_image case_prod_unfold)
  with snoc show ?case
    by (cases x) (auto simp: assign_def map_add_def split: option.splits)
qed

lemma tables_of_tree:
  assumes w: "wf_node root" and d: "syms root = mset ks" "distinct ks"
      and t: "t = build_codes_helper (Some root) [] empty_tables"
  shows "(codes t s = Some c) = ((s, c) \<in> set (code_list (Some root) []))"
    and "(reverse_mapping t c = Some s) = ((s, c) \<in> set (code_list (Some root) []))"
proof -
  let ?cl = "code_list (Some root) []"
  have df: "distinct (map fst ?cl)"
    using d syms_code_list [of root "[]"] mset_eq_imp_distinct_iff [of "map fst ?cl" ks]
    by simp
  have ds: "distinct (map snd ?cl)"
    using code_list_prefix_free [OF w, of "[]"] by simp
  then have ds': "distinct (map fst (map (\<lambda>(s, c). (c, s)) ?cl))"
    by (simp add: comp_def case_prod_unfold)
  show "(codes t s = Some c) = ((s, c) \<in> set ?cl)"
    unfolding t build_codes_helper_code_list codes_foldl_assign [OF df]
    using df by simp
  show "(reverse_mapping t c = Some s) = ((s, c) \<in> set ?cl)"
    unfolding t build_codes_helper_code_list reverse_mapping_foldl_assign [OF ds]
    using ds' by (auto simp: map_of_eq_Some_iff)
qed

lemma heap_syms_heappush: "heap_syms (heappush h n) = syms n + heap_syms h"
  by (simp add: heap_syms_def mset_heappush)

lemma heap_syms_heappop: "heappop h = Inr (x, h') \<Longrightarrow> heap_syms h = syms x + heap_syms h'"
  by (simp add: heap_syms_def mset_heappop [of h x h'])

lemma set_heappush: "set (heappush h n) = insert n (set h)"
  using arg_cong [OF mset_heappush [of h n], of set_mset] by simp

lemma set_heappop: "heappop h = Inr (x, h') \<Longrightarrow> set h = insert x (set h')"
  using arg_cong [OF mset_heappop [of h x h'], of set_mset] by simp

lemma mset_build_heap:
  "mset (build_heap h fd) =
     mset h + image_mset (\<lambda>(s, f). Node (Some s) f None None) (mset fd)"
  unfolding build_heap_def
  by (induction fd arbitrary: h) (simp_all add: mset_heappush case_prod_unfold)

lemma heap_syms_build_heap: "heap_syms (build_heap [] fd) = mset (map fst fd)"
  unfolding heap_syms_def mset_build_heap
  by (induction fd) (simp_all add: case_prod_unfold)

lemma wf_build_heap: "n \<in> set (build_heap [] fd) \<Longrightarrow> wf_node n"
proof -
  assume "n \<in> set (build_heap [] fd)"
  then have "n \<in># mset (build_heap [] fd)" by simp
  then show ?thesis unfolding mset_build_heap by auto
qed

lemma length_build_heap: "length (build_heap [] fd) = length fd"
  using arg_cong [OF mset_build_heap [of "[]" fd], of size] by simp

lemma merge_nodes_invariant:
  "\<forall>n \<in> set h. wf_node n \<Longrightarrow>
     \<exists>h'. merge_nodes h = Inr h' \<and> length h' = min 1 (length h)
        \<and> (\<forall>n \<in> set h'. wf_node n) \<and> heap_syms h' = heap_syms h"
proof (induction h rule: merge_nodes.induct)
  case (1 heap)
  show ?case
  proof (cases "length heap > 1")
    case False
    then show ?thesis using "1.prems"
      by (subst merge_nodes.simps) auto
  next
    case True
    then have "heap \<noteq> []" by auto
    then obtain n1 h1 where p1: "heappop heap = Inr (n1, h1)"
      using heappop_nonempty by blast
    from length_heappop [OF p1] True have "h1 \<noteq> []" by auto
    then obtain n2 h2 where p2: "heappop h1 = Inr (n2, h2)"
      using heappop_nonempty by blast
    let ?m = "Node None (freq n1 + freq n2) (Some n1) (Some n2)"
    let ?h = "heappush h2 ?m"
    have s1: "set heap = insert n1 (set h1)" and s2: "set h1 = insert n2 (set h2)"
      using set_heappop [OF p1] set_heappop [OF p2] by simp_all
    have wf: "\<forall>n \<in> set ?h. wf_node n"
      using "1.prems" s1 s2 by (simp add: set_heappush)
    have sy: "heap_syms ?h = heap_syms heap"
      using heap_syms_heappop [OF p1] heap_syms_heappop [OF p2]
      by (simp add: heap_syms_heappush)
    have len: "length ?h = length heap - 1"
      using length_heappop [OF p1] length_heappop [OF p2] by simp
    from "1.IH" [OF True p1 refl p2 refl wf]
    obtain h' where h': "merge_nodes ?h = Inr h'" "length h' = min 1 (length ?h)"
      "\<forall>n \<in> set h'. wf_node n" "heap_syms h' = heap_syms ?h" by blast
    have "merge_nodes heap = merge_nodes ?h"
      using True by (subst merge_nodes.simps) (simp add: p1 p2)
    with h' sy len True show ?thesis by auto
  qed
qed

lemma wf_node_two_syms:
  "wf_node n \<Longrightarrow> 2 \<le> size (syms n) \<Longrightarrow> \<exists>f a b. n = Node None f (Some a) (Some b)"
  by (erule wf_node_cases) auto

lemma heappop_single: "heappop [root] = Inr (root, [])"
  by (simp add: heappop_def)

text \<open>The tree of a non-empty frequency table.\<close>

lemma tree_of_freq_dict:
  assumes "fd \<noteq> []"
  shows "\<exists>root. merge_nodes (build_heap [] fd) = Inr [root] \<and> wf_node root
           \<and> syms root = mset (map fst fd)"
proof -
  have "\<forall>n \<in> set (build_heap [] fd). wf_node n" by (simp add: wf_build_heap)
  from merge_nodes_invariant [OF this]
  obtain h' where h': "merge_nodes (build_heap [] fd) = Inr h'"
    "length h' = min 1 (length (build_heap [] fd))"
    "\<forall>n \<in> set h'. wf_node n" "heap_syms h' = heap_syms (build_heap [] fd)" by blast
  from h'(2) assms have "length h' = 1" by (cases fd) (simp_all add: length_build_heap)
  then obtain root where r: "h' = [root]" by (cases h') auto
  have "syms root = heap_syms [root]" by (simp add: heap_syms_def)
  with h' r show ?thesis by (simp add: heap_syms_build_heap)
qed

subsection \<open>Decoding what was encoded\<close>

lemma decode_one_code:
  assumes pf: "\<And>q. rm q \<noteq> None \<Longrightarrow> prefix q c \<Longrightarrow> q = c"
      and c: "rm c = Some s"
  shows "cur @ c2 = c \<Longrightarrow> c2 \<noteq> [] \<Longrightarrow>
           decode_loop rm cur out (c2 @ rest) = decode_loop rm [] (out @ [s]) rest"
proof (induction c2 arbitrary: cur)
  case Nil
  then show ?case by simp
next
  case (Cons b c2)
  show ?case
  proof (cases "c2 = []")
    case True
    with Cons.prems c show ?thesis by simp
  next
    case False
    have "rm (cur @ [b]) = None"
    proof (rule ccontr)
      assume "rm (cur @ [b]) \<noteq> None"
      moreover have "prefix (cur @ [b]) c" using Cons.prems(1) by (auto simp: prefix_def)
      ultimately have "cur @ [b] = c" by (rule pf)
      with Cons.prems(1) have "cur @ b # c2 = cur @ [b]" by simp
      with False show False by simp
    qed
    moreover have "decode_loop rm (cur @ [b]) out (c2 @ rest)
                     = decode_loop rm [] (out @ [s]) rest"
      using Cons.prems(1) False by (intro Cons.IH) simp_all
    ultimately show ?thesis by simp
  qed
qed

lemma decode_encoded:
  assumes cs: "\<And>s. s \<in> set data \<Longrightarrow>
                 \<exists>c. cs s = Some c \<and> c \<noteq> [] \<and> list_all is_bit c \<and> rm c = Some s"
      and pf: "\<And>q c. rm q \<noteq> None \<Longrightarrow> rm c \<noteq> None \<Longrightarrow> prefix q c \<Longrightarrow> q = c"
  shows "\<exists>enc. get_encoded_data cs data = Inr enc \<and> list_all is_bit enc
           \<and> decode_loop rm [] out enc = ([], out @ data)"
  using cs
proof (induction data arbitrary: out)
  case Nil
  show ?case by simp
next
  case (Cons x data)
  from Cons.prems [of x] obtain c where
    c: "cs x = Some c" "c \<noteq> []" "list_all is_bit c" "rm c = Some x" by auto
  from Cons.IH [of "out @ [x]"] Cons.prems obtain enc where
    enc: "get_encoded_data cs data = Inr enc" "list_all is_bit enc"
         "decode_loop rm [] (out @ [x]) enc = ([], (out @ [x]) @ data)" by auto
  have "decode_loop rm [] out (c @ enc) = decode_loop rm [] (out @ [x]) enc"
  proof (rule decode_one_code [where c = c])
    show "q = c" if "rm q \<noteq> None" "prefix q c" for q
      using that c(4) by (intro pf) simp_all
  qed (use c in simp_all)
  with c enc show ?case by simp
qed

lemma build_codes_single:
  "build_codes [root] t = Inr ([], build_codes_helper (Some root) [] t)"
  by (simp add: build_codes_def heappop_single)

lemma code_tables_tree:
  assumes "fd \<noteq> []"
  shows "\<exists>root. wf_node root \<and> syms root = mset (map fst fd)
           \<and> code_tables fd = Inr (build_codes_helper (Some root) [] empty_tables)"
  using tree_of_freq_dict [OF assms]
  by (auto simp: code_tables_def build_codes_single)

lemma in_code_list_of_sym:
  "s \<in># syms root \<Longrightarrow> \<exists>c. (s, c) \<in> set (code_list (Some root) [])"
proof -
  assume "s \<in># syms root"
  then have "s \<in># mset (map fst (code_list (Some root) []))"
    by (simp only: syms_code_list)
  then have "s \<in> fst ` set (code_list (Some root) [])" by simp
  then show ?thesis by force
qed

lemma code_tables_properties:
  assumes ne: "fd \<noteq> []" and d: "distinct (map fst fd)"
  shows "\<exists>t. code_tables fd = Inr t
           \<and> (\<forall>s \<in> fst ` set fd. \<exists>c. codes t s = Some c)
           \<and> (\<forall>s c. (codes t s = Some c) = (reverse_mapping t c = Some s))
           \<and> (\<forall>s c. codes t s = Some c \<longrightarrow> list_all is_bit c)
           \<and> (\<forall>q c. reverse_mapping t q \<noteq> None \<and> reverse_mapping t c \<noteq> None \<and> prefix q c
                 \<longrightarrow> q = c)
           \<and> (2 \<le> length fd \<longrightarrow> (\<forall>s c. codes t s = Some c \<longrightarrow> c \<noteq> []))"
proof -
  from code_tables_tree [OF ne] obtain root where
    w: "wf_node root" and sy: "syms root = mset (map fst fd)" and
    ct: "code_tables fd = Inr (build_codes_helper (Some root) [] empty_tables)" by blast
  let ?t = "build_codes_helper (Some root) [] empty_tables"
  let ?cl = "code_list (Some root) []"
  note tab = tables_of_tree [OF w sy d refl]
  have dom: "\<exists>c. codes ?t s = Some c" if "s \<in> fst ` set fd" for s
  proof -
    from that have "s \<in># syms root" by (simp add: sy)
    from in_code_list_of_sym [OF this] show ?thesis by (simp add: tab(1))
  qed
  have bits: "list_all is_bit c" if "codes ?t s = Some c" for s c
    using code_list_extends [OF w, of s c "[]"] that by (simp add: tab(1))
  have pf: "q = c" if "reverse_mapping ?t q \<noteq> None" "reverse_mapping ?t c \<noteq> None" "prefix q c"
    for q c
  proof -
    from that obtain s s' where "(s, q) \<in> set ?cl" "(s', c) \<in> set ?cl"
      by (auto simp: tab(2))
    with code_list_prefix_free [OF w, of "[]"] that(3) show ?thesis by force
  qed
  have nonempty: "c \<noteq> []" if "2 \<le> length fd" "codes ?t s = Some c" for s c
  proof -
    from that(1) have "2 \<le> size (syms root)" by (simp add: sy)
    from wf_node_two_syms [OF w this] obtain f a b where
      r: "root = Node None f (Some a) (Some b)" by blast
    from that(2) have "(s, c) \<in> set ?cl" by (simp add: tab(1))
    with w show ?thesis unfolding r by (rule code_list_merged_nonempty)
  qed
  show ?thesis
  proof (intro exI conjI)
    show "code_tables fd = Inr ?t" by (rule ct)
  qed (use dom bits pf nonempty tab in auto)
qed

lemma compress_code_tables:
  "compress data =
     (case code_tables (build_frequency_dict data) of
        Inl e \<Rightarrow> Inl e
      | Inr t \<Rightarrow>
          (case get_encoded_data (codes t) data of
             Inl e \<Rightarrow> Inl e
           | Inr encoded_data \<Rightarrow>
               (case get_byte_array (fst (pad_encoded_data encoded_data)) of
                  Inl e \<Rightarrow> Inl e
                | Inr byte_array \<Rightarrow>
                    Inr \<lparr>c_bytes = byte_array,
                         c_reverse_mapping = reverse_mapping t,
                         c_padding = snd (pad_encoded_data encoded_data)\<rparr>)))"
  by (simp add: compress_def code_tables_def Let_def case_prod_unfold split: sum.splits)

lemma freq_dict_nonempty: "data \<noteq> [] \<Longrightarrow> build_frequency_dict data \<noteq> []"
  using keys_build_frequency_dict [of data] by auto

lemma length_freq_dict: "length (build_frequency_dict data) = card (set data)"
proof -
  have "card (set data) = card (set (map fst (build_frequency_dict data)))"
    by (simp add: keys_build_frequency_dict)
  also have "\<dots> = length (map fst (build_frequency_dict data))"
    by (rule distinct_card) (rule distinct_build_frequency_dict)
  finally show ?thesis by simp
qed

text \<open>
  With at least two distinct symbols in the input, \<^verbatim>\<open>compress\<close> returns a container
  and \<^verbatim>\<open>decompress\<close> of that container returns the input, for every symbol type.
\<close>

theorem compress_decompress_roundtrip:
  assumes "2 \<le> card (set data)"
  shows "\<exists>c. compress data = Inr c \<and> decompress c = Inr data"
proof -
  let ?fd = "build_frequency_dict data"
  from assms have two: "2 \<le> length ?fd" by (simp add: length_freq_dict)
  then have ne: "?fd \<noteq> []" by auto
  from code_tables_properties [OF ne distinct_build_frequency_dict] obtain t where
    P: "code_tables ?fd = Inr t
           \<and> (\<forall>s \<in> fst ` set ?fd. \<exists>c. codes t s = Some c)
           \<and> (\<forall>s c. (codes t s = Some c) = (reverse_mapping t c = Some s))
           \<and> (\<forall>s c. codes t s = Some c \<longrightarrow> list_all is_bit c)
           \<and> (\<forall>q c. reverse_mapping t q \<noteq> None \<and> reverse_mapping t c \<noteq> None \<and> prefix q c
                 \<longrightarrow> q = c)
           \<and> (2 \<le> length ?fd \<longrightarrow> (\<forall>s c. codes t s = Some c \<longrightarrow> c \<noteq> []))" ..
  note ct = P [THEN conjunct1]
  note dom = P [THEN conjunct2, THEN conjunct1, rule_format]
  note inv = P [THEN conjunct2, THEN conjunct2, THEN conjunct1, rule_format]
  note bits = P [THEN conjunct2, THEN conjunct2, THEN conjunct2, THEN conjunct1, rule_format]
  note pf = P [THEN conjunct2, THEN conjunct2, THEN conjunct2, THEN conjunct2, THEN conjunct1,
               rule_format]
  note nonempty = P [THEN conjunct2, THEN conjunct2, THEN conjunct2, THEN conjunct2,
                     THEN conjunct2, rule_format, OF two]
  have "\<exists>enc. get_encoded_data (codes t) data = Inr enc \<and> list_all is_bit enc
           \<and> decode_loop (reverse_mapping t) [] [] enc = ([], [] @ data)"
  proof (rule decode_encoded)
    fix s assume "s \<in> set data"
    then have "s \<in> fst ` set ?fd" by (simp add: keys_build_frequency_dict)
    from dom [OF this] obtain c where c: "codes t s = Some c" ..
    have "c \<noteq> []" using c by (rule nonempty)
    moreover have "list_all is_bit c" using c by (rule bits)
    moreover have "reverse_mapping t c = Some s" using c by (simp add: inv)
    ultimately
    show "\<exists>c. codes t s = Some c \<and> c \<noteq> [] \<and> list_all is_bit c \<and> reverse_mapping t c = Some s"
      using c by simp
  next
    fix q c assume "reverse_mapping t q \<noteq> None" "reverse_mapping t c \<noteq> None" "prefix q c"
    then show "q = c" by (intro pf conjI)
  qed
  then obtain enc where E: "get_encoded_data (codes t) data = Inr enc \<and> list_all is_bit enc
           \<and> decode_loop (reverse_mapping t) [] [] enc = ([], [] @ data)" ..
  note enc = E [THEN conjunct1]
  note eb = E [THEN conjunct2, THEN conjunct1]
  have dec: "decode_loop (reverse_mapping t) [] [] enc = ([], data)"
    using E [THEN conjunct2, THEN conjunct2] by simp
  let ?bytes = "map bits_value (chunks8 (fst (pad_encoded_data enc)))"
  let ?c = "\<lparr>c_bytes = ?bytes, c_reverse_mapping = reverse_mapping t,
             c_padding = snd (pad_encoded_data enc)\<rparr>"
  have 1: "compress data = Inr ?c"
    by (simp add: compress_code_tables ct enc packed_bytes(1) [OF eb])
  have 2: "decompress ?c = Inr data"
    by (simp add: decompress_def packed_bytes(2) [OF eb] decode_data_def dec)
  from 1 2 show ?thesis by (intro exI conjI)
qed

text \<open>
  In the code table of every non-empty frequency table, the code of one symbol is never
  a prefix of the code of another symbol.
\<close>

theorem code_tables_prefix_free:
  assumes "fd \<noteq> []" and "distinct (map fst fd)"
  shows "\<exists>t. code_tables fd = Inr t \<and>
           (\<forall>s s' c c'. codes t s = Some c \<and> codes t s' = Some c' \<and> s \<noteq> s'
              \<longrightarrow> \<not> prefix c c')"
proof -
  from code_tables_properties [OF assms] obtain t where
    P: "code_tables fd = Inr t
           \<and> (\<forall>s \<in> fst ` set fd. \<exists>c. codes t s = Some c)
           \<and> (\<forall>s c. (codes t s = Some c) = (reverse_mapping t c = Some s))
           \<and> (\<forall>s c. codes t s = Some c \<longrightarrow> list_all is_bit c)
           \<and> (\<forall>q c. reverse_mapping t q \<noteq> None \<and> reverse_mapping t c \<noteq> None \<and> prefix q c
                 \<longrightarrow> q = c)
           \<and> (2 \<le> length fd \<longrightarrow> (\<forall>s c. codes t s = Some c \<longrightarrow> c \<noteq> []))" ..
  note ct = P [THEN conjunct1]
  note inv = P [THEN conjunct2, THEN conjunct2, THEN conjunct1, rule_format]
  note pf = P [THEN conjunct2, THEN conjunct2, THEN conjunct2, THEN conjunct2, THEN conjunct1,
               rule_format]
  have "\<not> prefix c c'" if "codes t s = Some c" "codes t s' = Some c'" "s \<noteq> s'" for s s' c c'
  proof
    assume p: "prefix c c'"
    from that have r: "reverse_mapping t c = Some s" "reverse_mapping t c' = Some s'"
      by (simp_all add: inv)
    have "c = c'" by (rule pf) (simp add: r p)
    with r that(3) show False by simp
  qed
  with ct show ?thesis by blast
qed

text \<open>
  With at least two symbols in the frequency table every code has at least one bit.
\<close>

theorem code_tables_nonempty_codes:
  assumes "2 \<le> length fd" and "distinct (map fst fd)"
  shows "\<exists>t. code_tables fd = Inr t \<and> (\<forall>s c. codes t s = Some c \<longrightarrow> 1 \<le> length c)"
proof -
  from assms(1) have "fd \<noteq> []" by auto
  from code_tables_properties [OF this assms(2)] obtain t where
    P: "code_tables fd = Inr t
           \<and> (\<forall>s \<in> fst ` set fd. \<exists>c. codes t s = Some c)
           \<and> (\<forall>s c. (codes t s = Some c) = (reverse_mapping t c = Some s))
           \<and> (\<forall>s c. codes t s = Some c \<longrightarrow> list_all is_bit c)
           \<and> (\<forall>q c. reverse_mapping t q \<noteq> None \<and> reverse_mapping t c \<noteq> None \<and> prefix q c
                 \<longrightarrow> q = c)
           \<and> (2 \<le> length fd \<longrightarrow> (\<forall>s c. codes t s = Some c \<longrightarrow> c \<noteq> []))" ..
  note ct = P [THEN conjunct1]
  note ne = P [THEN conjunct2, THEN conjunct2, THEN conjunct2, THEN conjunct2, THEN conjunct2,
               rule_format, OF assms(1)]
  have "1 \<le> length c" if "codes t s = Some c" for s c
    using ne [OF that] by (cases c) simp_all
  with ct show ?thesis by blast
qed


subsection \<open>The alphabet of one symbol\<close>

text \<open>
  Claim C2 asks for a non-empty code when the frequency table has one symbol, so that
  N copies of one symbol come back from a round trip. On the input aaaa the heap holds
  one leaf, \<^verbatim>\<open>_merge_nodes\<close> does nothing, and \<^verbatim>\<open>_build_codes_helper\<close> is
  called on the leaf with the empty string: the code of a is empty, the payload is the
  two bytes 8 and 0, and decompress returns the empty sequence.
\<close>

theorem single_symbol_empty_code:
  "(case code_tables (build_frequency_dict ''aaaa'') of
      Inl e \<Rightarrow> False
    | Inr t \<Rightarrow> codes t CHR ''a'' = Some []) \<and>
   (case compress ''aaaa'' of
      Inl e \<Rightarrow> False
    | Inr c \<Rightarrow> c_bytes c = [8, 0] \<and> decompress c = Inr [])"
  by code_simp

text \<open>
  Claim C1 asks that every non-empty symbol sequence comes back from the round trip.
  The two equal pixels (10, 10, 10), (10, 10, 10) are compressed without an error and
  decompressed to the empty sequence.
\<close>

theorem roundtrip_fails_on_equal_pixels:
  "(case compress [(10, 10, 10), (10, 10, 10) :: nat \<times> nat \<times> nat] of
      Inl e \<Rightarrow> False
    | Inr c \<Rightarrow> decompress c = Inr [] \<and> decompress c \<noteq> Inr [(10, 10, 10), (10, 10, 10)])"
  by code_simp

text \<open>
  Claim C6 asks that every code has length at least 1. For the frequency table with the
  single entry z: 3 the code of z is the empty string.
\<close>

theorem single_entry_code_length_zero:
  "(case code_tables [(CHR ''z'', 3 :: nat)] of
      Inl e \<Rightarrow> False
    | Inr t \<Rightarrow> codes t CHR ''z'' = Some [] \<and> length (the (codes t CHR ''z'')) = 0)"
  by code_simp

end
